theory Spec2Isabelle
  imports Complex_Main
begin

section \<open>Packet diagram layout (chunk 6542): data model\<close>

text \<open>
  The packet diagram module of \<^verbatim>\<open>src/.next/server/chunks/6542.js\<close> is embedded below.
  Bit indices and the numeric configuration values are integers (the parser hands over
  integer tokens; the source's numbers are doubles, exact on the integers used here).

  A block as the parser hands it over: \<^verbatim>\<open>{start, end?, label}\<close>. The field
  \<^verbatim>\<open>end\<close> may be absent (\<^verbatim>\<open>undefined\<close>), which is \<open>None\<close> here.
\<close>

record PacketBlock =
  start :: int
  end_opt :: "int option"
  label :: string

text \<open>
  A block as it is stored in a word: \<^verbatim>\<open>getNextFittingBlock\<close> fills in
  \<^verbatim>\<open>end\<close> before it returns a fitting part, so the stored field is always a number.
\<close>

record FittedBlock =
  fstart :: int
  fend :: int
  flabel :: string

type_synonym PacketWord = "FittedBlock list"

text \<open>The module state \<^verbatim>\<open>s\<close>, a clone of \<^verbatim>\<open>n = {packet: []}\<close>.\<close>

record PacketDB =
  packet :: "PacketWord list"

text \<open>The three \<^verbatim>\<open>throw Error(...)\<close> sites, with the numbers their messages print.\<close>

datatype error =
    InvalidBlock int int
    \<comment> \<open>\<^verbatim>\<open>Packet block r - c is invalid. End must be greater than start.\<close>\<close>
  | NotContiguous int int int
    \<comment> \<open>\<^verbatim>\<open>Packet block r - (c ?? r) is not contiguous. It should start from e+1.\<close>\<close>
  | StartGreaterThanEnd int int
    \<comment> \<open>\<^verbatim>\<open>Block start .. is greater than block end ..\<close>\<close>

section \<open>The packet store\<close>

definition initialDB :: PacketDB where
  "initialDB = \<lparr>packet = []\<rparr>"

definition getPacket :: "PacketDB \<Rightarrow> PacketWord list" where
  "getPacket s = packet s"

text \<open>\<^verbatim>\<open>pushWord: t => { t.length > 0 && s.packet.push(t) }\<close>\<close>

definition pushWord :: "PacketWord \<Rightarrow> PacketDB \<Rightarrow> PacketDB" where
  "pushWord t s = (if length t > 0 then s\<lparr>packet := packet s @ [t]\<rparr> else s)"

section \<open>The block splitter\<close>

text \<open>
  \<^verbatim>\<open>getNextFittingBlock(t, e, a)\<close>: \<open>t\<close> the block, \<open>e\<close> the row number, \<open>a\<close> the
  bits per row. The thrown error is \<open>Inl\<close>; the returned pair is \<open>Inr\<close>, its second
  component \<open>None\<close> for \<^verbatim>\<open>undefined\<close>.
\<close>

definition getNextFittingBlock ::
  "PacketBlock \<Rightarrow> int \<Rightarrow> int \<Rightarrow> error + (FittedBlock \<times> PacketBlock option)" where
  "getNextFittingBlock t e a =
     (let t_end = (case end_opt t of None \<Rightarrow> start t | Some c \<Rightarrow> c) in
      if start t > t_end then Inl (StartGreaterThanEnd (start t) t_end)
      else if t_end + 1 \<le> e * a then
        Inr (\<lparr>fstart = start t, fend = t_end, flabel = label t\<rparr>, None)
      else
        Inr (\<lparr>fstart = start t, fend = e * a - 1, flabel = label t\<rparr>,
             Some \<lparr>start = e * a, end_opt = Some t_end, label = label t\<rparr>))"

section \<open>The populate driver\<close>

text \<open>
  The inner \<^verbatim>\<open>for (...; a.length <= o+1 && getPacket().length < 1e4; )\<close> loop of
  \<^verbatim>\<open>populate\<close>: \<open>bpr\<close> is \<^verbatim>\<open>o\<close> (bits per row), \<open>blk\<close> the working block
  \<^verbatim>\<open>{start: r, end: c, label: n}\<close>, \<open>a\<close> the word being filled, \<open>l\<close> the row number
  and \<open>s\<close> the store. The result is the thrown error (if any) and the values of
  \<open>a\<close>, \<open>l\<close> and \<open>s\<close> when the loop is left.
\<close>

function fit_loop ::
  "int \<Rightarrow> PacketBlock \<Rightarrow> PacketWord \<Rightarrow> int \<Rightarrow> PacketDB
     \<Rightarrow> error option \<times> PacketWord \<times> int \<times> PacketDB" where
  "fit_loop bpr blk a l s =
     (if int (length a) \<le> bpr + 1 \<and> length (getPacket s) < 10000 then
        (case getNextFittingBlock blk l bpr of
           Inl err \<Rightarrow> (Some err, a, l, s)
         | Inr (t, nxt) \<Rightarrow>
             (let a1 = a @ [t];
                  (a2, l2, s2) =
                    (if fend t + 1 = l * bpr then ([], l + 1, pushWord a1 s) else (a1, l, s))
              in case nxt of
                   None \<Rightarrow> (None, a2, l2, s2)
                 | Some nb \<Rightarrow> fit_loop bpr nb a2 l2 s2))
      else (None, a, l, s))"
  by pat_completeness auto
termination
  apply (relation "measure (\<lambda>(bpr, blk, a, l, s). 10000 - length (getPacket s))")
   apply simp
  apply (auto simp: getNextFittingBlock_def Let_def pushWord_def getPacket_def
      split: if_splits)
  done

declare fit_loop.simps [simp del]

text \<open>\<^verbatim>\<open>c ?? r\<close>: the end when it is present, the start otherwise.\<close>

definition end_or_start :: "PacketBlock \<Rightarrow> int" where
  "end_or_start b = (case end_opt b of None \<Rightarrow> start b | Some c \<Rightarrow> c)"

text \<open>
  \<^verbatim>\<open>if (c && c < r) throw Error(...)\<close>: the guard is skipped when \<^verbatim>\<open>c\<close> is falsy,
  that is absent or zero.
\<close>

definition range_check :: "PacketBlock \<Rightarrow> error option" where
  "range_check b =
     (case end_opt b of
        None \<Rightarrow> None
      | Some c \<Rightarrow> if c \<noteq> 0 \<and> c < start b then Some (InvalidBlock (start b) c) else None)"

text \<open>
  The \<^verbatim>\<open>for (let {start: r, end: c, label: n} of t.blocks)\<close> loop: \<open>e\<close> is the last
  bit seen (\<^verbatim>\<open>e\<close>, initially -1). A thrown error ends the loop with the store as it
  is at that moment.
\<close>

fun populate_blocks ::
  "int \<Rightarrow> PacketBlock list \<Rightarrow> int \<Rightarrow> PacketWord \<Rightarrow> int \<Rightarrow> PacketDB
     \<Rightarrow> error option \<times> int \<times> PacketWord \<times> int \<times> PacketDB" where
  "populate_blocks bpr [] e a l s = (None, e, a, l, s)"
| "populate_blocks bpr (b # bs) e a l s =
     (case range_check b of
        Some err \<Rightarrow> (Some err, e, a, l, s)
      | None \<Rightarrow>
          if start b \<noteq> e + 1 then
            (Some (NotContiguous (start b) (end_or_start b) (e + 1)), e, a, l, s)
          else
            (case fit_loop bpr b a l s of
               (Some err, a', l', s') \<Rightarrow> (Some err, end_or_start b, a', l', s')
             | (None, a', l', s') \<Rightarrow> populate_blocks bpr bs (end_or_start b) a' l' s'))"

text \<open>
  \<^verbatim>\<open>populate\<close> on the block list of the parsed diagram, with \<open>bpr\<close> the
  \<^verbatim>\<open>bitsPerRow\<close> of \<^verbatim>\<open>getConfig()\<close>. It returns the thrown error, if any, and the
  store it leaves behind; the final \<^verbatim>\<open>pushWord(a)\<close> runs only when nothing was thrown.
  The first statement, \<^verbatim>\<open>populateCommonDb\<close>, copies the title and the accessibility
  texts into the common store of another chunk; it does not touch \<^verbatim>\<open>s\<close> and is left
  out.
\<close>

definition populate :: "int \<Rightarrow> PacketBlock list \<Rightarrow> PacketDB \<Rightarrow> error option \<times> PacketDB" where
  "populate bpr blocks s =
     (case populate_blocks bpr blocks (- 1) [] 1 s of
        (Some err, e, a, l, s') \<Rightarrow> (Some err, s')
      | (None, e, a, l, s') \<Rightarrow> (None, pushWord a s'))"

section \<open>The module state\<close>

text \<open>
  The module holds two objects: the constant \<^verbatim>\<open>n = {packet: []}\<close> and the variable
  \<^verbatim>\<open>s = structuredClone(n)\<close>. Objects live in a heap and are named by their address:
  \<open>n_ref\<close> is the object \<^verbatim>\<open>n\<close> refers to, \<open>s_ref\<close> the object \<^verbatim>\<open>s\<close> refers to, and
  \<open>fresh\<close> the address the next \<^verbatim>\<open>structuredClone\<close> allocates (what the heap holds
  from \<open>fresh\<close> on is never read). The functions above take the object \<^verbatim>\<open>s\<close> refers to
  as an argument; the functions below say where it lives.
\<close>

type_synonym addr = nat

record Module =
  objects :: "addr \<Rightarrow> PacketDB"
  n_ref :: addr
  s_ref :: addr
  fresh :: addr

text \<open>
  The state after the module is loaded: \<^verbatim>\<open>n\<close> at address 0, its clone \<^verbatim>\<open>s\<close> at
  address 1.
\<close>

definition module_init :: Module where
  "module_init =
     \<lparr>objects = (\<lambda>a. \<lparr>packet = []\<rparr>), n_ref = 0, s_ref = 1, fresh = 2\<rparr>"

text \<open>\<^verbatim>\<open>getPacket: () => s.packet\<close> and \<^verbatim>\<open>pushWord\<close>, on the object \<^verbatim>\<open>s\<close> refers to.\<close>

definition module_getPacket :: "Module \<Rightarrow> PacketWord list" where
  "module_getPacket m = getPacket (objects m (s_ref m))"

definition module_pushWord :: "PacketWord \<Rightarrow> Module \<Rightarrow> Module" where
  "module_pushWord t m = m\<lparr>objects := (objects m)(s_ref m := pushWord t (objects m (s_ref m)))\<rparr>"

text \<open>
  \<^verbatim>\<open>populate\<close> reaches the module state only through \<^verbatim>\<open>getPacket\<close> and
  \<^verbatim>\<open>pushWord\<close> and never assigns \<^verbatim>\<open>s\<close>: it changes the object at \<open>s_ref\<close> and
  nothing else.
\<close>

definition module_populate ::
  "int \<Rightarrow> PacketBlock list \<Rightarrow> Module \<Rightarrow> error option \<times> Module" where
  "module_populate bpr blocks m =
     (case populate bpr blocks (objects m (s_ref m)) of
        (err, s') \<Rightarrow> (err, m\<lparr>objects := (objects m)(s_ref m := s')\<rparr>))"

text \<open>
  \<^verbatim>\<open>clear: () => { commonClear(); s = structuredClone(n) }\<close>: a copy of the object
  \<^verbatim>\<open>n\<close> refers to is put at a fresh address, and \<^verbatim>\<open>s\<close> refers to it from then on.
  \<^verbatim>\<open>commonClear\<close> resets the title and accessibility texts of another chunk and is
  left out.
\<close>

definition clear :: "Module \<Rightarrow> Module" where
  "clear m =
     m\<lparr>objects := (objects m)(fresh m := objects m (n_ref m)),
       s_ref := fresh m,
       fresh := fresh m + 1\<rparr>"

text \<open>
  The module states that can arise: the initial one, and any state that populate,
  pushWord or clear makes of one that can arise.
\<close>

inductive reachable :: "Module \<Rightarrow> bool" where
  reachable_init: "reachable module_init"
| reachable_populate: "reachable m \<Longrightarrow> reachable (snd (module_populate bpr blocks m))"
| reachable_pushWord: "reachable m \<Longrightarrow> reachable (module_pushWord t m)"
| reachable_clear: "reachable m \<Longrightarrow> reachable (clear m)"

section \<open>The configuration\<close>

record PacketConfig =
  rowHeight :: int
  bitWidth :: int
  bitsPerRow :: int
  showBits :: bool
  paddingX :: int
  paddingY :: int
  useMaxWidth :: bool

text \<open>The \<^verbatim>\<open>packet\<close> section of the site configuration: every key may be absent.\<close>

record PacketUserConfig =
  u_rowHeight :: "int option"
  u_bitWidth :: "int option"
  u_bitsPerRow :: "int option"
  u_showBits :: "bool option"
  u_paddingX :: "int option"
  u_paddingY :: "int option"
  u_useMaxWidth :: "bool option"

text \<open>The object spread \<^verbatim>\<open>{...d, ...u}\<close>: a key of \<open>u\<close> replaces the key of \<open>d\<close>.\<close>

definition spread :: "PacketConfig \<Rightarrow> PacketUserConfig \<Rightarrow> PacketConfig" where
  "spread d u =
     \<lparr>rowHeight = (case u_rowHeight u of None \<Rightarrow> rowHeight d | Some v \<Rightarrow> v),
      bitWidth = (case u_bitWidth u of None \<Rightarrow> bitWidth d | Some v \<Rightarrow> v),
      bitsPerRow = (case u_bitsPerRow u of None \<Rightarrow> bitsPerRow d | Some v \<Rightarrow> v),
      showBits = (case u_showBits u of None \<Rightarrow> showBits d | Some v \<Rightarrow> v),
      paddingX = (case u_paddingX u of None \<Rightarrow> paddingX d | Some v \<Rightarrow> v),
      paddingY = (case u_paddingY u of None \<Rightarrow> paddingY d | Some v \<Rightarrow> v),
      useMaxWidth = (case u_useMaxWidth u of None \<Rightarrow> useMaxWidth d | Some v \<Rightarrow> v)\<rparr>"

text \<open>
  \<^verbatim>\<open>getConfig: () => { let t = cleanAndMerge({...d, ...getConfig().packet});
  return t.showBits && (t.paddingY += 10), t }\<close>. The defaults \<open>d\<close>
  (\<^verbatim>\<open>i.vZ.packet\<close>), the site configuration \<open>u\<close> and the helper \<open>cleanAndMerge\<close>
  (\<^verbatim>\<open>l.Rb\<close>) belong to other chunks and are parameters here.
\<close>

definition getConfig ::
  "(PacketConfig \<Rightarrow> PacketConfig) \<Rightarrow> PacketConfig \<Rightarrow> PacketUserConfig \<Rightarrow> PacketConfig" where
  "getConfig cleanAndMerge d u =
     (let t = cleanAndMerge (spread d u)
      in if showBits t then t\<lparr>paddingY := paddingY t + 10\<rparr> else t)"

section \<open>The draw stage\<close>

text \<open>
  The remainder \<^verbatim>\<open>a % b\<close> of two integers: the sign follows the dividend, and a zero
  divisor gives \<^verbatim>\<open>NaN\<close>, which is \<open>None\<close> here.
\<close>

definition js_rem :: "int \<Rightarrow> int \<Rightarrow> int option" where
  "js_rem a b = (if b = 0 then None else Some (sgn a * (\<bar>a\<bar> mod \<bar>b\<bar>)))"

text \<open>
  The elements \<^verbatim>\<open>drawWord\<close> appends to the row's group: a rectangle with
  \<^verbatim>\<open>x, y, width, height, class\<close>, or a text with \<^verbatim>\<open>x, y, class, dominant-baseline,
  text-anchor\<close> and its content (a label or a bit index).
\<close>

datatype text_content = LabelText string | BitIndex int

datatype svg_node =
    Rect "int option" int int int string
  | Text "rat option" rat string string string text_content

text \<open>
  The body of the \<^verbatim>\<open>for (let t of e)\<close> loop of \<^verbatim>\<open>drawWord\<close>; \<open>d\<close> is the row's
  \<^verbatim>\<open>y\<close>. The local names follow the source: \<open>e\<close> is the block's x, \<open>a\<close> its width,
  \<open>single\<close> (\<^verbatim>\<open>o\<close>) whether it is a single bit, \<open>p\<close> the y of the bit indices.
\<close>

definition drawBlock :: "PacketConfig \<Rightarrow> int \<Rightarrow> FittedBlock \<Rightarrow> svg_node list" where
  "drawBlock cfg d t =
     (let e = map_option (\<lambda>m. m * bitWidth cfg + 1) (js_rem (fstart t) (bitsPerRow cfg));
          a = (fend t - fstart t + 1) * bitWidth cfg - paddingX cfg;
          block =
            [Rect e d a (rowHeight cfg) ''packetBlock'',
             Text (map_option (\<lambda>x. of_int x + of_int a / 2) e)
               (of_int d + of_int (rowHeight cfg) / 2)
               ''packetLabel'' ''middle'' ''middle'' (LabelText (flabel t))]
      in if \<not> showBits cfg then block
         else
           (let single = (fend t = fstart t);
                p = d - 2
            in block
               @ [Text (map_option (\<lambda>x. of_int x + (if single then of_int a / 2 else 0)) e)
                    (of_int p) ''packetByte start'' ''auto''
                    (if single then ''middle'' else ''start'') (BitIndex (fstart t))]
               @ (if single then []
                  else [Text (map_option (\<lambda>x. of_int (x + a)) e)
                          (of_int p) ''packetByte end'' ''auto'' ''end'' (BitIndex (fend t))])))"

text \<open>\<^verbatim>\<open>drawWord(svg, e, a, config)\<close>: \<open>e\<close> the word, \<open>a\<close> its row number.\<close>

definition drawWord :: "PacketWord \<Rightarrow> int \<Rightarrow> PacketConfig \<Rightarrow> svg_node list" where
  "drawWord e a cfg =
     (let d = a * (rowHeight cfg + paddingY cfg) + paddingY cfg
      in concat (map (drawBlock cfg d) e))"

text \<open>What a drawing shows: its rectangles, and the bit indices of a given class.\<close>

fun rects :: "svg_node list \<Rightarrow> (int option \<times> int \<times> int \<times> int) list" where
  "rects [] = []"
| "rects (Rect x y w h c # ns) = (x, y, w, h) # rects ns"
| "rects (Text x y c b an tc # ns) = rects ns"

fun bit_indices :: "string \<Rightarrow> svg_node list \<Rightarrow> int list" where
  "bit_indices cls [] = []"
| "bit_indices cls (Text x y c b an (BitIndex i) # ns) =
     (if c = cls then i # bit_indices cls ns else bit_indices cls ns)"
| "bit_indices cls (n # ns) = bit_indices cls ns"

section \<open>Notions of the specification\<close>

text \<open>
  The splitter as the specification words it: the end defaults to the start, a block
  with \<open>start > end\<close> is a validation error, and with \<open>limit = rowIndex * bitsPerRow - 1\<close>
  the block either fits whole or is cut at the limit, the label kept on both parts.
\<close>

definition split_spec ::
  "PacketBlock \<Rightarrow> int \<Rightarrow> int \<Rightarrow> error + (FittedBlock \<times> PacketBlock option)" where
  "split_spec block rowIndex bits_per_row =
     (let block_end = (if end_opt block = None then start block else the (end_opt block));
          limit = rowIndex * bits_per_row - 1
      in if start block > block_end then Inl (StartGreaterThanEnd (start block) block_end)
         else if block_end \<le> limit then
           Inr (\<lparr>fstart = start block, fend = block_end, flabel = label block\<rparr>, None)
         else
           Inr (\<lparr>fstart = start block, fend = limit, flabel = label block\<rparr>,
                Some \<lparr>start = limit + 1, end_opt = Some block_end, label = label block\<rparr>))"

text \<open>
  The resolver as the specification words it: merge, user keys first, then ten more
  units of vertical padding when the bit indices are shown.
\<close>

definition resolve_spec :: "PacketConfig \<Rightarrow> PacketUserConfig \<Rightarrow> PacketConfig" where
  "resolve_spec builtinDefaults userConfig =
     \<lparr>rowHeight = (case u_rowHeight userConfig of None \<Rightarrow> rowHeight builtinDefaults | Some v \<Rightarrow> v),
      bitWidth = (case u_bitWidth userConfig of None \<Rightarrow> bitWidth builtinDefaults | Some v \<Rightarrow> v),
      bitsPerRow = (case u_bitsPerRow userConfig of None \<Rightarrow> bitsPerRow builtinDefaults | Some v \<Rightarrow> v),
      showBits = (case u_showBits userConfig of None \<Rightarrow> showBits builtinDefaults | Some v \<Rightarrow> v),
      paddingX = (case u_paddingX userConfig of None \<Rightarrow> paddingX builtinDefaults | Some v \<Rightarrow> v),
      paddingY =
        (case u_paddingY userConfig of None \<Rightarrow> paddingY builtinDefaults | Some v \<Rightarrow> v)
        + (if (case u_showBits userConfig of None \<Rightarrow> showBits builtinDefaults | Some v \<Rightarrow> v)
           then 10 else 0),
      useMaxWidth = (case u_useMaxWidth userConfig of None \<Rightarrow> useMaxWidth builtinDefaults | Some v \<Rightarrow> v)\<rparr>"

text \<open>The bits a stored sub-block covers, and the bits an input block covers.\<close>

definition sub_block_bits :: "FittedBlock \<Rightarrow> int list" where
  "sub_block_bits b = [fstart b..fend b]"

definition block_bits :: "PacketBlock \<Rightarrow> int list" where
  "block_bits b = [start b..end_or_start b]"

text \<open>
  The bit ranges of all stored sub-blocks, word after word, concatenated; and the bit
  ranges of the input blocks, concatenated.
\<close>

definition stored_bits :: "PacketDB \<Rightarrow> int list" where
  "stored_bits s = concat (map sub_block_bits (concat (packet s)))"

definition input_bits :: "PacketBlock list \<Rightarrow> int list" where
  "input_bits bs = concat (map block_bits bs)"

text \<open>The width of a word: the sum of \<open>end - start + 1\<close> over its sub-blocks.\<close>

definition word_width :: "PacketWord \<Rightarrow> int" where
  "word_width w = sum_list (map (\<lambda>b. fend b - fstart b + 1) w)"

text \<open>
  A valid input: the first block starts at 0, every later block starts one past the end
  of the block before it, and no block ends before it starts (the end defaulted to the
  start). \<open>next_start p bs\<close> is the bit after the last block, so \<open>total_bits\<close> is the
  number of bits of the diagram.
\<close>

fun contiguous_from :: "int \<Rightarrow> PacketBlock list \<Rightarrow> bool" where
  "contiguous_from p [] = True"
| "contiguous_from p (b # bs) =
     (start b = p \<and> start b \<le> end_or_start b \<and> contiguous_from (end_or_start b + 1) bs)"

fun next_start :: "int \<Rightarrow> PacketBlock list \<Rightarrow> int" where
  "next_start p [] = p"
| "next_start p (b # bs) = next_start (end_or_start b + 1) bs"

definition valid_input :: "PacketBlock list \<Rightarrow> bool" where
  "valid_input bs = contiguous_from 0 bs"

definition total_bits :: "PacketBlock list \<Rightarrow> int" where
  "total_bits bs = next_start 0 bs"

text \<open>
  The start the driver expects after the blocks \<open>pre\<close>: one past the end of the last of
  them, from the sentinel -1 when there is none.
\<close>

definition expected_start :: "PacketBlock list \<Rightarrow> int" where
  "expected_start pre = (if pre = [] then - 1 else end_or_start (last pre)) + 1"

text \<open>
  Proof notions. \<open>tiles lo ws hi\<close>: the sub-blocks \<open>ws\<close> cover the bits from \<open>lo\<close> up
  to \<open>hi - 1\<close> in order, each with at least one bit. \<open>rows_ok\<close>: word number \<open>i\<close> of
  the store covers exactly row \<open>i\<close>. \<open>layout_inv\<close> is the state of the driver between
  two blocks while the store is in step with the input (\<open>p\<close> the next bit, \<open>a\<close> the
  word being filled, \<open>l\<close> the row number); \<open>capped_inv\<close> also admits the state after the
  store has reached 10000 words.
\<close>

fun tiles :: "int \<Rightarrow> FittedBlock list \<Rightarrow> int \<Rightarrow> bool" where
  "tiles lo [] hi = (lo = hi)"
| "tiles lo (b # bs) hi = (fstart b = lo \<and> lo \<le> fend b \<and> tiles (fend b + 1) bs hi)"

definition rows_ok :: "int \<Rightarrow> PacketWord list \<Rightarrow> bool" where
  "rows_ok B ws = (\<forall>i < length ws. tiles (int i * B) (ws ! i) (int i * B + B))"

definition layout_inv :: "int \<Rightarrow> int \<Rightarrow> PacketWord \<Rightarrow> int \<Rightarrow> PacketDB \<Rightarrow> bool" where
  "layout_inv B p a l s =
     (1 \<le> l \<and> length (packet s) = nat (l - 1) \<and> tiles ((l - 1) * B) a p \<and> p < l * B
      \<and> rows_ok B (packet s))"

definition capped_inv :: "int \<Rightarrow> int \<Rightarrow> PacketWord \<Rightarrow> int \<Rightarrow> PacketDB \<Rightarrow> bool" where
  "capped_inv B p a l s =
     (rows_ok B (packet s) \<and> length (packet s) \<le> 10000
      \<and> (length (packet s) = 10000 \<longrightarrow> a = [])
      \<and> (length (packet s) < 10000 \<longrightarrow> layout_inv B p a l s))"

text \<open>Example inputs: \<open>n\<close> one-bit blocks from bit \<open>p\<close> on, and three small diagrams.\<close>

fun unit_blocks :: "int \<Rightarrow> nat \<Rightarrow> PacketBlock list" where
  "unit_blocks p 0 = []"
| "unit_blocks p (Suc n) = \<lparr>start = p, end_opt = None, label = ''bit''\<rparr> # unit_blocks (p + 1) n"

definition example_three_fields :: "PacketBlock list" where
  "example_three_fields =
     [\<lparr>start = 0, end_opt = None, label = ''A''\<rparr>,
      \<lparr>start = 1, end_opt = Some 10, label = ''B''\<rparr>,
      \<lparr>start = 11, end_opt = Some 15, label = ''C''\<rparr>]"

definition example_ten_bits :: "PacketBlock list" where
  "example_ten_bits = [\<lparr>start = 0, end_opt = Some 9, label = ''A''\<rparr>]"

definition example_two_rows :: "PacketBlock list" where
  "example_two_rows = [\<lparr>start = 0, end_opt = Some 15, label = ''A''\<rparr>]"

definition example_config :: PacketConfig where
  "example_config =
     \<lparr>rowHeight = 32, bitWidth = 32, bitsPerRow = 32, showBits = True,
      paddingX = 5, paddingY = 5, useMaxWidth = True\<rparr>"

section \<open>Sub-blocks that tile an interval\<close>

lemma tiles_snoc:
  "tiles lo a p \<Longrightarrow> fstart t = p \<Longrightarrow> p \<le> fend t \<Longrightarrow> tiles lo (a @ [t]) (fend t + 1)"
  by (induction a arbitrary: lo) auto

lemma tiles_le: "tiles lo ws hi \<Longrightarrow> lo \<le> hi"
  by (induction ws arbitrary: lo) fastforce+

lemma tiles_length: "tiles lo ws hi \<Longrightarrow> int (length ws) \<le> hi - lo"
  by (induction ws arbitrary: lo) fastforce+

lemma tiles_width: "tiles lo ws hi \<Longrightarrow> word_width ws = hi - lo"
  by (induction ws arbitrary: lo) (auto simp: word_width_def)

lemma tiles_bits: "tiles lo ws hi \<Longrightarrow> concat (map sub_block_bits ws) = [lo..hi - 1]"
proof (induction ws arbitrary: lo)
  case Nil
  then show ?case by simp
next
  case (Cons b bs)
  then have t: "tiles (fend b + 1) bs hi" and lo: "fstart b = lo" "lo \<le> fend b" by auto
  from tiles_le[OF t] have le: "fend b + 1 \<le> hi" .
  have "[lo..hi - 1] = [lo..fend b] @ [fend b + 1..hi - 1]"
    using upto_split2[of lo "fend b" "hi - 1"] lo le by simp
  with Cons.IH[OF t] lo show ?case by (simp add: sub_block_bits_def)
qed

lemma tiles_append: "tiles lo xs m \<Longrightarrow> tiles m ys hi \<Longrightarrow> tiles lo (xs @ ys) hi"
  by (induction xs arbitrary: lo) auto

section \<open>One round of the inner loop\<close>

text \<open>
  The loop body, by the position of the block's end against the row boundary \<open>l * B\<close>:
  the block fits with room left, it ends the row, or it is cut at the boundary and the
  loop goes on with the remainder in the next row.
\<close>

lemma fit_loop_whole:
  assumes "int (length a) \<le> B + 1" "length (packet s) < 10000"
    and "start blk \<le> end_or_start blk" "end_or_start blk + 1 < l * B"
  shows "fit_loop B blk a l s =
    (None, a @ [\<lparr>fstart = start blk, fend = end_or_start blk, flabel = label blk\<rparr>], l, s)"
  using assms
  by (subst fit_loop.simps)
    (simp add: getNextFittingBlock_def getPacket_def end_or_start_def Let_def split: option.splits)

lemma fit_loop_exact:
  assumes "int (length a) \<le> B + 1" "length (packet s) < 10000"
    and "start blk \<le> end_or_start blk" "end_or_start blk + 1 = l * B"
  shows "fit_loop B blk a l s =
    (None, [], l + 1,
     pushWord (a @ [\<lparr>fstart = start blk, fend = end_or_start blk, flabel = label blk\<rparr>]) s)"
  using assms
  by (subst fit_loop.simps)
    (simp add: getNextFittingBlock_def getPacket_def end_or_start_def Let_def split: option.splits)

lemma fit_loop_split:
  assumes "int (length a) \<le> B + 1" "length (packet s) < 10000"
    and "start blk \<le> end_or_start blk" "l * B < end_or_start blk + 1"
  shows "fit_loop B blk a l s =
    fit_loop B \<lparr>start = l * B, end_opt = Some (end_or_start blk), label = label blk\<rparr> [] (l + 1)
      (pushWord (a @ [\<lparr>fstart = start blk, fend = l * B - 1, flabel = label blk\<rparr>]) s)"
  using assms
  by (subst fit_loop.simps)
    (simp add: getNextFittingBlock_def getPacket_def end_or_start_def Let_def split: option.splits)

section \<open>The layout invariant\<close>

lemma rows_ok_snoc:
  "rows_ok B ws \<Longrightarrow> tiles (int (length ws) * B) w (int (length ws) * B + B)
    \<Longrightarrow> rows_ok B (ws @ [w])"
  by (auto simp: rows_ok_def nth_append less_Suc_eq)

lemma layout_inv_guard:
  assumes "0 < B" "layout_inv B p a l s" "p < 10000 * B"
  shows "int (length a) \<le> B + 1" "length (packet s) < 10000"
proof -
  from assms(2) have l: "1 \<le> l" and len: "length (packet s) = nat (l - 1)"
    and t: "tiles ((l - 1) * B) a p" and p: "p < l * B"
    by (auto simp: layout_inv_def)
  from tiles_length[OF t] p show "int (length a) \<le> B + 1"
    by (simp add: algebra_simps)
  from tiles_le[OF t] assms(3) have "(l - 1) * B < 10000 * B" by simp
  with assms(1) have "l - 1 < 10000" by (simp add: mult_less_cancel_right)
  with len l show "length (packet s) < 10000" by simp
qed

lemma layout_inv_push:
  assumes "0 < B" "layout_inv B p a l s" "fstart t = p" "fend t + 1 = l * B"
  shows "layout_inv B (l * B) [] (l + 1) (pushWord (a @ [t]) s)"
proof -
  from assms(2) have l: "1 \<le> l" and len: "length (packet s) = nat (l - 1)"
    and t: "tiles ((l - 1) * B) a p" and p: "p < l * B" and r: "rows_ok B (packet s)"
    by (auto simp: layout_inv_def)
  have "p \<le> fend t" using p assms(4) by simp
  from tiles_snoc[OF t assms(3) this] assms(4)
  have w: "tiles ((l - 1) * B) (a @ [t]) (l * B)" by simp
  have il: "int (length (packet s)) = l - 1" using len l by simp
  have "(l - 1) * B + B = l * B" by (simp add: algebra_simps)
  with w have w': "tiles ((l - 1) * B) (a @ [t]) ((l - 1) * B + B)" by simp
  have "rows_ok B (packet s @ [a @ [t]])"
    by (rule rows_ok_snoc[OF r]) (simp only: il w')
  then show ?thesis
    using l len assms(1) by (simp add: layout_inv_def pushWord_def algebra_simps nat_add_distrib)
qed

lemma layout_inv_snoc:
  assumes "layout_inv B p a l s" "fstart t = p" "p \<le> fend t" "fend t + 1 < l * B"
  shows "layout_inv B (fend t + 1) (a @ [t]) l s"
  using assms tiles_snoc[of "(l - 1) * B" a p t] by (simp add: layout_inv_def)

lemma end_or_start_simps [simp]:
  "end_or_start \<lparr>start = x, end_opt = Some y, label = n\<rparr> = y"
  "end_or_start \<lparr>start = x, end_opt = None, label = n\<rparr> = x"
  by (simp_all add: end_or_start_def)

lemma concat_packet_pushWord: "concat (packet (pushWord w s)) = concat (packet s) @ w"
  by (simp add: pushWord_def)

section \<open>The driver on a valid input within 10000 rows\<close>

lemma fit_loop_valid:
  assumes B: "0 < B"
  shows "layout_inv B (start blk) a l s \<Longrightarrow> start blk \<le> end_or_start blk
    \<Longrightarrow> end_or_start blk < 10000 * B
    \<Longrightarrow> \<exists>a' l' s' ws. fit_loop B blk a l s = (None, a', l', s')
          \<and> layout_inv B (end_or_start blk + 1) a' l' s'
          \<and> concat (packet s') @ a' = concat (packet s) @ a @ ws
          \<and> ws \<noteq> [] \<and> tiles (start blk) ws (end_or_start blk + 1)"
proof (induction "nat (end_or_start blk - start blk)" arbitrary: blk a l s rule: less_induct)
  case less
  let ?en = "end_or_start blk"
  have lt: "start blk < 10000 * B" using less.prems(2,3) by simp
  note g = layout_inv_guard[OF B less.prems(1) lt]
  have row: "start blk < l * B" using less.prems(1) by (simp add: layout_inv_def)
  consider (whole) "?en + 1 < l * B" | (exact) "?en + 1 = l * B" | (split) "l * B < ?en + 1"
    by linarith
  then show ?case
  proof cases
    case whole
    let ?t = "\<lparr>fstart = start blk, fend = ?en, flabel = label blk\<rparr>"
    have r: "fit_loop B blk a l s = (None, a @ [?t], l, s)"
      by (rule fit_loop_whole[OF g less.prems(2) whole])
    have i: "layout_inv B (?en + 1) (a @ [?t]) l s"
      using layout_inv_snoc[OF less.prems(1), of ?t] less.prems(2) whole by simp
    have t: "tiles (start blk) [?t] (?en + 1)" using less.prems(2) by simp
    show ?thesis
      by (intro exI[of _ "a @ [?t]"] exI[of _ l] exI[of _ s] exI[of _ "[?t]"] conjI r i t) simp_all
  next
    case exact
    let ?t = "\<lparr>fstart = start blk, fend = ?en, flabel = label blk\<rparr>"
    have r: "fit_loop B blk a l s = (None, [], l + 1, pushWord (a @ [?t]) s)"
      by (rule fit_loop_exact[OF g less.prems(2) exact])
    have i: "layout_inv B (?en + 1) [] (l + 1) (pushWord (a @ [?t]) s)"
      using layout_inv_push[OF B less.prems(1), of ?t] exact by simp
    have t: "tiles (start blk) [?t] (?en + 1)" using less.prems(2) by simp
    show ?thesis
      by (intro exI[of _ "[]"] exI[of _ "l + 1"] exI[of _ "pushWord (a @ [?t]) s"]
          exI[of _ "[?t]"] conjI r i t) (simp_all add: concat_packet_pushWord)
  next
    case split
    let ?t = "\<lparr>fstart = start blk, fend = l * B - 1, flabel = label blk\<rparr>"
    let ?nb = "\<lparr>start = l * B, end_opt = Some ?en, label = label blk\<rparr>"
    let ?s = "pushWord (a @ [?t]) s"
    have r: "fit_loop B blk a l s = fit_loop B ?nb [] (l + 1) ?s"
      by (rule fit_loop_split[OF g less.prems(2) split])
    have i: "layout_inv B (start ?nb) [] (l + 1) ?s"
      using layout_inv_push[OF B less.prems(1), of ?t] by simp
    have m: "nat (end_or_start ?nb - start ?nb) < nat (?en - start blk)"
      using row split by simp
    have "start ?nb \<le> end_or_start ?nb" "end_or_start ?nb < 10000 * B"
      using split less.prems(3) by simp_all
    from less.hyps[OF m i this]
    obtain a' l' s' ws where
      r': "fit_loop B ?nb [] (l + 1) ?s = (None, a', l', s')"
      and i': "layout_inv B (?en + 1) a' l' s'"
      and c': "concat (packet s') @ a' = concat (packet ?s) @ [] @ ws"
      and t': "tiles (l * B) ws (?en + 1)"
      by auto
    have t: "tiles (start blk) (?t # ws) (?en + 1)" using row t' by simp
    have c: "concat (packet s') @ a' = concat (packet s) @ a @ (?t # ws)"
      using c' by (simp add: concat_packet_pushWord)
    show ?thesis
      by (intro exI[of _ a'] exI[of _ l'] exI[of _ s'] exI[of _ "?t # ws"] conjI i' t c)
        (simp_all add: r r')
  qed
qed

lemma next_start_ge: "contiguous_from p bs \<Longrightarrow> p \<le> next_start p bs"
proof (induction bs arbitrary: p)
  case Nil
  then show ?case by simp
next
  case (Cons b bs)
  then have "end_or_start b + 1 \<le> next_start (end_or_start b + 1) bs" by simp
  with Cons.prems show ?case by simp
qed

lemma range_check_valid: "start b \<le> end_or_start b \<Longrightarrow> range_check b = None"
  by (auto simp: range_check_def end_or_start_def split: option.splits)

lemma populate_blocks_valid:
  assumes B: "0 < B"
  shows "layout_inv B p a l s \<Longrightarrow> contiguous_from p bs \<Longrightarrow> next_start p bs \<le> 10000 * B
    \<Longrightarrow> \<exists>a' l' s' ws. populate_blocks B bs (p - 1) a l s = (None, next_start p bs - 1, a', l', s')
          \<and> layout_inv B (next_start p bs) a' l' s'
          \<and> concat (packet s') @ a' = concat (packet s) @ a @ ws
          \<and> length bs \<le> length ws \<and> tiles p ws (next_start p bs)"
proof (induction bs arbitrary: p a l s)
  case Nil
  then show ?case by simp
next
  case (Cons b bs)
  let ?en = "end_or_start b"
  from Cons.prems(2) have sb: "start b = p" and se: "start b \<le> ?en"
    and cf: "contiguous_from (?en + 1) bs" by auto
  from next_start_ge[OF cf] Cons.prems(3) have lim: "?en < 10000 * B" by simp
  from fit_loop_valid[OF B _ se lim, of a l s] Cons.prems(1) sb
  obtain a1 l1 s1 ws1 where
    r1: "fit_loop B b a l s = (None, a1, l1, s1)"
    and i1: "layout_inv B (?en + 1) a1 l1 s1"
    and c1: "concat (packet s1) @ a1 = concat (packet s) @ a @ ws1"
    and n1: "ws1 \<noteq> []" and t1: "tiles p ws1 (?en + 1)"
    by auto
  from Cons.prems(3) have "next_start (?en + 1) bs \<le> 10000 * B" by simp
  from Cons.IH[OF i1 cf this]
  obtain a2 l2 s2 ws2 where
    r2: "populate_blocks B bs ?en a1 l1 s1 = (None, next_start (?en + 1) bs - 1, a2, l2, s2)"
    and i2: "layout_inv B (next_start (?en + 1) bs) a2 l2 s2"
    and c2: "concat (packet s2) @ a2 = concat (packet s1) @ a1 @ ws2"
    and n2: "length bs \<le> length ws2" and t2: "tiles (?en + 1) ws2 (next_start (?en + 1) bs)"
    by auto
  have r: "populate_blocks B (b # bs) (p - 1) a l s
      = (None, next_start p (b # bs) - 1, a2, l2, s2)"
    using sb r1 r2 by (simp add: range_check_valid[OF se])
  have c: "concat (packet s2) @ a2 = concat (packet s) @ a @ (ws1 @ ws2)"
    using c1 c2 by (metis append.assoc)
  have n: "length (b # bs) \<le> length (ws1 @ ws2)"
    using n1 n2 by (cases ws1) simp_all
  have t: "tiles p (ws1 @ ws2) (next_start p (b # bs))"
    using tiles_append[OF t1 t2] by simp
  show ?case
    by (intro exI[of _ a2] exI[of _ l2] exI[of _ s2] exI[of _ "ws1 @ ws2"] conjI r c n t)
      (use i2 in simp)
qed

lemma layout_inv_initial: "0 < B \<Longrightarrow> layout_inv B 0 [] 1 initialDB"
  by (simp add: layout_inv_def initialDB_def rows_ok_def)

lemma populate_valid:
  assumes B: "0 < B" and v: "valid_input bs" and c: "total_bits bs \<le> 10000 * B"
  shows "\<exists>a l s. populate B bs initialDB = (None, pushWord a s)
      \<and> layout_inv B (total_bits bs) a l s
      \<and> tiles 0 (concat (packet s) @ a) (total_bits bs)
      \<and> length bs \<le> length (concat (packet s) @ a)"
proof -
  from populate_blocks_valid[OF B layout_inv_initial[OF B], of bs] v c
  obtain a l s ws where
    r: "populate_blocks B bs (- 1) [] 1 initialDB = (None, total_bits bs - 1, a, l, s)"
    and i: "layout_inv B (total_bits bs) a l s"
    and cc: "concat (packet s) @ a = concat (packet initialDB) @ [] @ ws"
    and n: "length bs \<le> length ws" and t: "tiles 0 ws (total_bits bs)"
    by (auto simp: valid_input_def total_bits_def)
  from cc have "concat (packet s) @ a = ws" by (simp add: initialDB_def)
  with r i n t show ?thesis
    by (intro exI[of _ a] exI[of _ l] exI[of _ s]) (simp add: populate_def)
qed

section \<open>Case analysis of the inner loop\<close>

text \<open>
  An induction rule that follows the loop: it stops at once (guard false), the splitter
  throws, the block fits, the block ends the row, or the block is cut and the loop runs
  again on a store that is one word longer.
\<close>

lemma fit_loop_stop:
  assumes "\<not> (int (length a) \<le> B + 1 \<and> length (packet s) < 10000)"
  shows "fit_loop B blk a l s = (None, a, l, s)"
  using assms by (subst fit_loop.simps) (auto simp: getPacket_def)

lemma fit_loop_error:
  assumes "int (length a) \<le> B + 1" "length (packet s) < 10000"
    and "end_or_start blk < start blk"
  shows "fit_loop B blk a l s = (Some (StartGreaterThanEnd (start blk) (end_or_start blk)), a, l, s)"
  using assms
  by (subst fit_loop.simps)
    (simp add: getNextFittingBlock_def getPacket_def end_or_start_def Let_def split: option.splits)

lemma length_packet_pushWord:
  "w \<noteq> [] \<Longrightarrow> length (packet (pushWord w s)) = Suc (length (packet s))"
  by (simp add: pushWord_def)

lemma fit_loop_cases [case_names stop error whole exact split]:
  assumes stop: "\<And>blk a l s.
      \<not> (int (length a) \<le> B + 1 \<and> length (packet s) < 10000) \<Longrightarrow> P blk a l s"
    and error: "\<And>blk a l s.
      int (length a) \<le> B + 1 \<Longrightarrow> length (packet s) < 10000
      \<Longrightarrow> end_or_start blk < start blk \<Longrightarrow> P blk a l s"
    and whole: "\<And>blk a l s.
      int (length a) \<le> B + 1 \<Longrightarrow> length (packet s) < 10000
      \<Longrightarrow> start blk \<le> end_or_start blk \<Longrightarrow> end_or_start blk + 1 < l * B \<Longrightarrow> P blk a l s"
    and exact: "\<And>blk a l s.
      int (length a) \<le> B + 1 \<Longrightarrow> length (packet s) < 10000
      \<Longrightarrow> start blk \<le> end_or_start blk \<Longrightarrow> end_or_start blk + 1 = l * B \<Longrightarrow> P blk a l s"
    and split: "\<And>blk a l s.
      int (length a) \<le> B + 1 \<Longrightarrow> length (packet s) < 10000
      \<Longrightarrow> start blk \<le> end_or_start blk \<Longrightarrow> l * B < end_or_start blk + 1
      \<Longrightarrow> P \<lparr>start = l * B, end_opt = Some (end_or_start blk), label = label blk\<rparr> [] (l + 1)
            (pushWord (a @ [\<lparr>fstart = start blk, fend = l * B - 1, flabel = label blk\<rparr>]) s)
      \<Longrightarrow> P blk a l s"
  shows "P blk a l s"
proof (induction "10000 - length (packet s)" arbitrary: blk a l s rule: less_induct)
  case less
  show ?case
  proof (cases "int (length a) \<le> B + 1 \<and> length (packet s) < 10000")
    case False
    then show ?thesis by (rule stop)
  next
    case True
    then have g: "int (length a) \<le> B + 1" "length (packet s) < 10000" by simp_all
    consider (e) "end_or_start blk < start blk"
      | (w) "start blk \<le> end_or_start blk" "end_or_start blk + 1 < l * B"
      | (x) "start blk \<le> end_or_start blk" "end_or_start blk + 1 = l * B"
      | (sp) "start blk \<le> end_or_start blk" "l * B < end_or_start blk + 1"
      by linarith
    then show ?thesis
    proof cases
      case e
      then show ?thesis by (rule error[OF g])
    next
      case w
      then show ?thesis by (rule whole[OF g])
    next
      case x
      then show ?thesis by (rule exact[OF g])
    next
      case sp
      let ?s = "pushWord (a @ [\<lparr>fstart = start blk, fend = l * B - 1, flabel = label blk\<rparr>]) s"
      have "10000 - length (packet ?s) < 10000 - length (packet s)"
        using g(2) by (simp add: length_packet_pushWord)
      from split[OF g sp less.hyps[OF this]] show ?thesis .
    qed
  qed
qed

section \<open>What the inner loop keeps for every block\<close>

lemma fit_loop_words_nonempty:
  "\<forall>w\<in>set (packet s). w \<noteq> []
    \<Longrightarrow> \<forall>w\<in>set (packet (snd (snd (snd (fit_loop B blk a l s))))). w \<noteq> []"
proof (induction blk a l s rule: fit_loop_cases[where B = B])
  case (stop blk a l s)
  then show ?case by (simp add: fit_loop_stop)
next
  case (error blk a l s)
  then show ?case by (simp add: fit_loop_error)
next
  case (whole blk a l s)
  then show ?case by (simp add: fit_loop_whole)
next
  case (exact blk a l s)
  then show ?case by (simp add: fit_loop_exact pushWord_def)
next
  case (split blk a l s)
  from split.prems have "\<forall>w\<in>set (packet (pushWord
      (a @ [\<lparr>fstart = start blk, fend = l * B - 1, flabel = label blk\<rparr>]) s)). w \<noteq> []"
    by (simp add: pushWord_def)
  from split.IH[OF this] split.hyps show ?case by (simp add: fit_loop_split)
qed

lemma fit_loop_ceiling:
  "length (packet s) \<le> 10000 \<Longrightarrow> (length (packet s) = 10000 \<longrightarrow> a = [])
    \<Longrightarrow> length (packet (snd (snd (snd (fit_loop B blk a l s))))) \<le> 10000
      \<and> (length (packet (snd (snd (snd (fit_loop B blk a l s))))) = 10000
           \<longrightarrow> fst (snd (fit_loop B blk a l s)) = [])"
proof (induction blk a l s rule: fit_loop_cases[where B = B])
  case (stop blk a l s)
  then show ?case by (simp add: fit_loop_stop)
next
  case (error blk a l s)
  then show ?case by (simp add: fit_loop_error)
next
  case (whole blk a l s)
  then show ?case by (simp add: fit_loop_whole)
next
  case (exact blk a l s)
  then show ?case by (simp add: fit_loop_exact pushWord_def)
next
  case (split blk a l s)
  let ?s = "pushWord (a @ [\<lparr>fstart = start blk, fend = l * B - 1, flabel = label blk\<rparr>]) s"
  from split.hyps(2) have "length (packet ?s) \<le> 10000" by (simp add: pushWord_def)
  from split.IH[OF this] split.hyps show ?case by (simp add: fit_loop_split)
qed

lemma fit_loop_no_error:
  "start blk \<le> end_or_start blk \<Longrightarrow> fst (fit_loop B blk a l s) = None"
proof (induction blk a l s rule: fit_loop_cases[where B = B])
  case (split blk a l s)
  then show ?case by (simp add: fit_loop_split)
qed (simp_all add: fit_loop_stop fit_loop_whole fit_loop_exact)

section \<open>The driver on a valid input of any size\<close>

lemma layout_inv_word_guard:
  assumes "0 < B" "layout_inv B p a l s"
  shows "int (length a) \<le> B + 1"
proof -
  from assms(2) have t: "tiles ((l - 1) * B) a p" and p: "p < l * B"
    by (auto simp: layout_inv_def)
  from tiles_length[OF t] p show ?thesis by (simp add: algebra_simps)
qed

lemma layout_inv_rows_ok: "layout_inv B p a l s \<Longrightarrow> rows_ok B (packet s)"
  by (simp add: layout_inv_def)

lemma capped_inv_push:
  assumes B: "0 < B" and i: "layout_inv B p a l s" and len: "length (packet s) < 10000"
    and t: "fstart t = p" "fend t + 1 = l * B"
  shows "capped_inv B (l * B) [] (l + 1) (pushWord (a @ [t]) s)"
proof -
  let ?s = "pushWord (a @ [t]) s"
  note n = layout_inv_push[OF B i t]
  have "length (packet ?s) \<le> 10000" using len by (simp add: pushWord_def)
  with n layout_inv_rows_ok[OF n] show ?thesis by (simp add: capped_inv_def)
qed

lemma fit_loop_capped_inv:
  assumes B: "0 < B"
  shows "capped_inv B (start blk) a l s \<Longrightarrow> start blk \<le> end_or_start blk
    \<Longrightarrow> \<exists>a' l' s'. fit_loop B blk a l s = (None, a', l', s')
          \<and> capped_inv B (end_or_start blk + 1) a' l' s'"
proof (induction blk a l s rule: fit_loop_cases[where B = B])
  case (stop blk a l s)
  have "\<not> length (packet s) < 10000"
    using stop.hyps stop.prems(1) layout_inv_word_guard[OF B] by (auto simp: capped_inv_def)
  with stop.prems(1) have "capped_inv B (end_or_start blk + 1) a l s" by (simp add: capped_inv_def)
  with stop.hyps show ?case by (simp add: fit_loop_stop)
next
  case (error blk a l s)
  then show ?case by simp
next
  case (whole blk a l s)
  let ?t = "\<lparr>fstart = start blk, fend = end_or_start blk, flabel = label blk\<rparr>"
  from whole.prems(1) whole.hyps(2) have i: "layout_inv B (start blk) a l s" by (simp add: capped_inv_def)
  from layout_inv_snoc[OF i, of ?t] whole.hyps have "layout_inv B (end_or_start blk + 1) (a @ [?t]) l s"
    by simp
  then have "capped_inv B (end_or_start blk + 1) (a @ [?t]) l s"
    using whole.hyps(2) by (simp add: capped_inv_def layout_inv_rows_ok)
  then show ?case using whole.hyps by (simp add: fit_loop_whole)
next
  case (exact blk a l s)
  let ?t = "\<lparr>fstart = start blk, fend = end_or_start blk, flabel = label blk\<rparr>"
  from exact.prems(1) exact.hyps(2) have i: "layout_inv B (start blk) a l s" by (simp add: capped_inv_def)
  from capped_inv_push[OF B i exact.hyps(2), of ?t] exact.hyps(4)
  have "capped_inv B (end_or_start blk + 1) [] (l + 1) (pushWord (a @ [?t]) s)" by simp
  then show ?case using exact.hyps by (simp add: fit_loop_exact)
next
  case (split blk a l s)
  let ?t = "\<lparr>fstart = start blk, fend = l * B - 1, flabel = label blk\<rparr>"
  from split.prems(1) split.hyps(2) have i: "layout_inv B (start blk) a l s" by (simp add: capped_inv_def)
  from capped_inv_push[OF B i split.hyps(2), of ?t]
  have "capped_inv B (l * B) [] (l + 1) (pushWord (a @ [?t]) s)" by simp
  with split.IH split.hyps(4) show ?case using split.hyps by (simp add: fit_loop_split)
qed

lemma populate_blocks_capped_inv:
  assumes B: "0 < B"
  shows "capped_inv B p a l s \<Longrightarrow> contiguous_from p bs
    \<Longrightarrow> \<exists>a' l' s'. populate_blocks B bs (p - 1) a l s = (None, next_start p bs - 1, a', l', s')
          \<and> capped_inv B (next_start p bs) a' l' s'"
proof (induction bs arbitrary: p a l s)
  case Nil
  then show ?case by simp
next
  case (Cons b bs)
  let ?en = "end_or_start b"
  from Cons.prems(2) have sb: "start b = p" and se: "start b \<le> ?en"
    and cf: "contiguous_from (?en + 1) bs" by auto
  from fit_loop_capped_inv[OF B _ se, of a l s] Cons.prems(1) sb
  obtain a1 l1 s1 where r1: "fit_loop B b a l s = (None, a1, l1, s1)"
    and i1: "capped_inv B (?en + 1) a1 l1 s1" by auto
  from Cons.IH[OF i1 cf] r1 sb show ?case by (simp add: range_check_valid[OF se])
qed

lemma capped_inv_initial: "0 < B \<Longrightarrow> capped_inv B 0 [] 1 initialDB"
  using layout_inv_initial[of B] by (simp add: capped_inv_def layout_inv_rows_ok) (simp add: initialDB_def)

lemma rows_ok_width: "rows_ok B ws \<Longrightarrow> w \<in> set ws \<Longrightarrow> word_width w = B"
  by (auto simp: rows_ok_def in_set_conv_nth dest!: tiles_width)

lemma butlast_packet_pushWord: "set (butlast (packet (pushWord a s))) \<subseteq> set (packet s)"
  by (auto simp: pushWord_def dest: in_set_butlastD)

lemma populate_rows_full:
  assumes B: "0 < B" and v: "valid_input bs"
  shows "fst (populate B bs initialDB) = None
    \<and> (\<forall>w\<in>set (butlast (packet (snd (populate B bs initialDB)))). word_width w = B)"
proof -
  from populate_blocks_capped_inv[OF B capped_inv_initial[OF B], of bs] v
  obtain a l s where
    r: "populate_blocks B bs (- 1) [] 1 initialDB = (None, next_start 0 bs - 1, a, l, s)"
    and i: "capped_inv B (next_start 0 bs) a l s"
    by (auto simp: valid_input_def)
  from i have "rows_ok B (packet s)" by (simp add: capped_inv_def)
  with butlast_packet_pushWord[of a s] rows_ok_width
  have "\<forall>w\<in>set (butlast (packet (pushWord a s))). word_width w = B" by blast
  with r show ?thesis by (simp add: populate_def)
qed

section \<open>The last row\<close>

lemma tiles_empty: "tiles lo ws lo \<Longrightarrow> ws = []"
  using tiles_length[of lo ws lo] by simp

lemma layout_inv_row_number:
  assumes B: "0 < B" and i: "layout_inv B p a l s"
  shows "l - 1 = p div B" "(a = []) = (p mod B = 0)"
proof -
  from i have t: "tiles ((l - 1) * B) a p" and p: "p < l * B" by (auto simp: layout_inv_def)
  from tiles_le[OF t] have lo: "(l - 1) * B \<le> p" .
  define r where "r = p - (l - 1) * B"
  have r: "0 \<le> r" "r < B" "p = (l - 1) * B + r"
    using lo p by (simp_all add: r_def algebra_simps)
  from r B show d: "l - 1 = p div B" by simp
  from r B have m: "p mod B = r" by simp
  show "(a = []) = (p mod B = 0)"
  proof
    assume "a = []"
    with t have "(l - 1) * B = p" by simp
    with r m show "p mod B = 0" by simp
  next
    assume "p mod B = 0"
    with m r have "p = (l - 1) * B" by simp
    with t show "a = []" using tiles_empty by simp
  qed
qed

lemma contiguous_bits:
  "contiguous_from p bs \<Longrightarrow> concat (map block_bits bs) = [p..next_start p bs - 1]"
proof (induction bs arbitrary: p)
  case Nil
  then show ?case by simp
next
  case (Cons b bs)
  let ?en = "end_or_start b"
  from Cons.prems have sb: "start b = p" and se: "p \<le> ?en"
    and cf: "contiguous_from (?en + 1) bs" by auto
  from next_start_ge[OF cf] have le: "?en + 1 \<le> next_start (?en + 1) bs" .
  have "[p..next_start (?en + 1) bs - 1] = [p..?en] @ [?en + 1..next_start (?en + 1) bs - 1]"
    using upto_split2[of p ?en "next_start (?en + 1) bs - 1"] se le by simp
  with Cons.IH[OF cf] sb show ?case by (simp add: block_bits_def)
qed

lemma populate_last_row:
  assumes B: "0 < B" and v: "valid_input bs" and c: "total_bits bs \<le> 10000 * B"
  shows "total_bits bs mod B \<noteq> 0 \<Longrightarrow>
      packet (snd (populate B bs initialDB)) \<noteq> []
      \<and> concat (map sub_block_bits (last (packet (snd (populate B bs initialDB)))))
          = [total_bits bs div B * B..total_bits bs - 1]"
    and "total_bits bs mod B = 0 \<Longrightarrow>
      int (length (packet (snd (populate B bs initialDB)))) = total_bits bs div B"
proof -
  from populate_valid[OF assms]
  obtain a l s where r: "populate B bs initialDB = (None, pushWord a s)"
    and i: "layout_inv B (total_bits bs) a l s"
    by auto
  note n = layout_inv_row_number[OF B i]
  from i have t: "tiles ((l - 1) * B) a (total_bits bs)"
    and len: "length (packet s) = nat (l - 1)" and l: "1 \<le> l"
    by (auto simp: layout_inv_def)
  {
    assume "total_bits bs mod B \<noteq> 0"
    with n have ne: "a \<noteq> []" by simp
    then have p: "packet (pushWord a s) = packet s @ [a]" by (simp add: pushWord_def)
    from tiles_bits[OF t] n(1)
    have "concat (map sub_block_bits a) = [total_bits bs div B * B..total_bits bs - 1]" by simp
    with p r show "packet (snd (populate B bs initialDB)) \<noteq> []
      \<and> concat (map sub_block_bits (last (packet (snd (populate B bs initialDB)))))
          = [total_bits bs div B * B..total_bits bs - 1]" by simp
  }
  {
    assume "total_bits bs mod B = 0"
    with n have "a = []" by simp
    then have "packet (pushWord a s) = packet s" by (simp add: pushWord_def)
    with r len l n(1)
    show "int (length (packet (snd (populate B bs initialDB)))) = total_bits bs div B" by simp
  }
qed

section \<open>What the driver keeps for every input\<close>

lemma fit_loop_store_nonempty:
  assumes "\<forall>w\<in>set (packet s). w \<noteq> []" and "fit_loop B blk a l s = (r, a', l', s')"
  shows "\<forall>w\<in>set (packet s'). w \<noteq> []"
  using fit_loop_words_nonempty[OF assms(1), of B blk a l] assms(2) by simp

lemma populate_blocks_words_nonempty:
  "\<forall>w\<in>set (packet s). w \<noteq> [] \<Longrightarrow> populate_blocks B bs e a l s = (r, e', a', l', s')
    \<Longrightarrow> \<forall>w\<in>set (packet s'). w \<noteq> []"
proof (induction bs arbitrary: e a l s)
  case Nil
  then show ?case by simp
next
  case (Cons b bs)
  obtain x a1 l1 s1 where f: "fit_loop B b a l s = (x, a1, l1, s1)"
    by (cases "fit_loop B b a l s") auto
  note n1 = fit_loop_store_nonempty[OF Cons.prems(1) f]
  from Cons.prems(2) f Cons.prems(1) n1 Cons.IH[OF n1] show ?case
    by (auto split: option.splits if_splits)
qed

lemma fit_loop_store_ceiling:
  assumes "length (packet s) \<le> 10000" and "length (packet s) = 10000 \<longrightarrow> a = []"
    and "fit_loop B blk a l s = (r, a', l', s')"
  shows "length (packet s') \<le> 10000" and "length (packet s') = 10000 \<longrightarrow> a' = []"
  using fit_loop_ceiling[OF assms(1,2), of B blk l] assms(3) by simp_all

lemma populate_blocks_ceiling:
  "length (packet s) \<le> 10000 \<Longrightarrow> length (packet s) = 10000 \<longrightarrow> a = []
    \<Longrightarrow> populate_blocks B bs e a l s = (r, e', a', l', s')
    \<Longrightarrow> length (packet s') \<le> 10000 \<and> (length (packet s') = 10000 \<longrightarrow> a' = [])"
proof (induction bs arbitrary: e a l s)
  case Nil
  then show ?case by simp
next
  case (Cons b bs)
  obtain x a1 l1 s1 where f: "fit_loop B b a l s = (x, a1, l1, s1)"
    by (cases "fit_loop B b a l s") auto
  note n1 = fit_loop_store_ceiling[OF Cons.prems(1,2) f]
  from Cons.prems(3) f Cons.prems(1,2) n1 Cons.IH[OF n1] show ?case
    by (auto split: option.splits if_splits)
qed

lemma populate_blocks_no_error:
  "contiguous_from (e + 1) bs \<Longrightarrow> fst (populate_blocks B bs e a l s) = None"
proof (induction bs arbitrary: e a l s)
  case Nil
  then show ?case by simp
next
  case (Cons b bs)
  from Cons.prems have sb: "start b = e + 1" and se: "start b \<le> end_or_start b"
    and cf: "contiguous_from (end_or_start b + 1) bs" by auto
  obtain x a1 l1 s1 where f: "fit_loop B b a l s = (x, a1, l1, s1)"
    by (cases "fit_loop B b a l s") auto
  with fit_loop_no_error[OF se, of B a l s] have "x = None" by simp
  with f sb Cons.IH[OF cf] show ?case by (simp add: range_check_valid[OF se])
qed

lemma populate_blocks_at_ceiling:
  "length (packet s) = 10000 \<Longrightarrow> populate_blocks B bs e a l s = (r, e', a', l', s')
    \<Longrightarrow> s' = s \<and> a' = a"
proof (induction bs arbitrary: e)
  case Nil
  then show ?case by simp
next
  case (Cons b bs)
  from Cons.prems(1) have "fit_loop B b a l s = (None, a, l, s)"
    by (simp add: fit_loop_stop)
  with Cons.prems Cons.IH show ?case
    by (auto split: option.splits if_splits)
qed

section \<open>The driver on a list of blocks in two parts\<close>

lemma populate_blocks_append:
  "populate_blocks B (xs @ ys) e a l s =
     (case populate_blocks B xs e a l s of
        (Some err, st) \<Rightarrow> (Some err, st)
      | (None, e', a', l', s') \<Rightarrow> populate_blocks B ys e' a' l' s')"
  by (induction xs arbitrary: e a l s) (auto split: option.splits prod.splits)

lemma populate_blocks_last_end:
  "populate_blocks B bs e a l s = (None, e', a', l', s')
    \<Longrightarrow> e' = (if bs = [] then e else end_or_start (last bs))"
  by (induction bs arbitrary: e a l s) (auto split: option.splits prod.splits if_splits)

section \<open>One-bit blocks\<close>

lemma unit_blocks_contiguous: "contiguous_from p (unit_blocks p n)"
  by (induction n arbitrary: p) simp_all

lemma unit_blocks_next_start: "next_start p (unit_blocks p n) = p + int n"
  by (induction n arbitrary: p) simp_all

lemma unit_blocks_length: "length (unit_blocks p n) = n"
  by (induction n arbitrary: p) simp_all

section \<open>The range check\<close>

text \<open>
  A block whose end is present, not zero and below its start raises the invalid-block
  error, when the blocks before it raised nothing.
\<close>

lemma invalid_block_raises:
  assumes "fst (populate B pre s) = None" and "end_opt b = Some c" and "c \<noteq> 0"
    and "c < start b"
  shows "fst (populate B (pre @ b # post) s) = Some (InvalidBlock (start b) c)"
proof -
  obtain r e a l s' where p: "populate_blocks B pre (- 1) [] 1 s = (r, e, a, l, s')"
    by (cases "populate_blocks B pre (- 1) [] 1 s") auto
  with assms(1) have r: "r = None" by (cases r) (simp_all add: populate_def)
  from assms(2-4) have "range_check b = Some (InvalidBlock (start b) c)"
    by (simp add: range_check_def)
  with p r show ?thesis by (simp add: populate_def populate_blocks_append)
qed

section \<open>The elements of a drawn block\<close>

lemma rects_append: "rects (xs @ ys) = rects xs @ rects ys"
  by (induction xs rule: rects.induct) simp_all

lemma bit_indices_append: "bit_indices c (xs @ ys) = bit_indices c xs @ bit_indices c ys"
  by (induction c xs rule: bit_indices.induct) simp_all

lemma js_rem_mod: "0 \<le> a \<Longrightarrow> 0 < b \<Longrightarrow> js_rem a b = Some (a mod b)"
  by (cases "a = 0") (simp_all add: js_rem_def)

lemma rects_drawBlock:
  "rects (drawBlock cfg d t) =
     [(map_option (\<lambda>m. m * bitWidth cfg + 1) (js_rem (fstart t) (bitsPerRow cfg)), d,
       (fend t - fstart t + 1) * bitWidth cfg - paddingX cfg, rowHeight cfg)]"
  by (simp add: drawBlock_def Let_def rects_append)

lemma start_indices_drawBlock:
  "bit_indices ''packetByte start'' (drawBlock cfg d t) = (if showBits cfg then [fstart t] else [])"
  by (simp add: drawBlock_def Let_def bit_indices_append)

lemma end_indices_drawBlock:
  "bit_indices ''packetByte end'' (drawBlock cfg d t) =
     (if showBits cfg \<and> fend t \<noteq> fstart t then [fend t] else [])"
  by (simp add: drawBlock_def Let_def bit_indices_append)

section \<open>The block splitter meets its contract\<close>

text \<open>
  C2: the splitter defaults an absent end to the start, raises the validation error when
  start > end, returns the whole block and no remainder when the end is at most
  limit = rowIndex * bitsPerRow - 1, and otherwise returns the part up to the limit and
  the remainder from limit + 1, both with the original label.
\<close>

theorem getNextFittingBlock_refines_split_spec:
  "getNextFittingBlock block rowIndex bpr = split_spec block rowIndex bpr"
  by (cases "end_opt block") (simp_all add: getNextFittingBlock_def split_spec_def Let_def)

theorem getNextFittingBlock_example:
  "getNextFittingBlock \<lparr>start = 0, end_opt = Some 15, label = ''A''\<rparr> 1 8
     = Inr (\<lparr>fstart = 0, fend = 7, flabel = ''A''\<rparr>,
            Some \<lparr>start = 8, end_opt = Some 15, label = ''A''\<rparr>)
   \<and> getNextFittingBlock \<lparr>start = 3, end_opt = None, label = ''B''\<rparr> 1 8
     = Inr (\<lparr>fstart = 3, fend = 3, flabel = ''B''\<rparr>, None)
   \<and> getNextFittingBlock \<lparr>start = 5, end_opt = Some 2, label = ''bad''\<rparr> 1 8
     = Inl (StartGreaterThanEnd 5 2)"
  by (simp add: getNextFittingBlock_refines_split_spec split_spec_def)

section \<open>The layout is a re-partitioning\<close>

text \<open>
  C1: for every input block list that passes validation (the first block starts at 0,
  each later block starts at the previous block's end + 1, every block's end is at least
  its start after defaulting) and that stays under the safety ceiling (it needs at most
  10000 rows of the positive \<open>bitsPerRow\<close>), populate on the cleared store raises
  nothing, and the bit ranges of all sub-blocks stored across all words, concatenated in
  the order they were emitted, are exactly the bit ranges of the input blocks,
  concatenated in input order: no bit is dropped, duplicated or moved.
\<close>

theorem populate_repartitions_bits:
  assumes "0 < B" and "valid_input bs" and "total_bits bs \<le> 10000 * B"
  shows "fst (populate B bs initialDB) = None
    \<and> stored_bits (snd (populate B bs initialDB)) = input_bits bs"
proof -
  from populate_valid[OF assms]
  obtain a l s where r: "populate B bs initialDB = (None, pushWord a s)"
    and t: "tiles 0 (concat (packet s) @ a) (total_bits bs)"
    by auto
  have "stored_bits (pushWord a s) = [0..total_bits bs - 1]"
    using tiles_bits[OF t] by (simp add: stored_bits_def concat_packet_pushWord)
  moreover have "input_bits bs = [0..total_bits bs - 1]"
    using contiguous_bits[of 0 bs] assms(2)
    by (simp add: input_bits_def valid_input_def total_bits_def)
  ultimately show ?thesis using r by simp
qed

theorem populate_repartitions_bits_witness:
  "(0::int) < 8 \<and> valid_input example_three_fields
   \<and> total_bits example_three_fields \<le> 10000 * 8
   \<and> fst (populate 8 example_three_fields initialDB) = None
   \<and> stored_bits (snd (populate 8 example_three_fields initialDB)) = [0..15]
   \<and> input_bits example_three_fields = [0..15]"
proof -
  have h1: "(0::int) < 8" by simp
  have h2: "valid_input example_three_fields"
    by (simp add: example_three_fields_def valid_input_def)
  have h3: "total_bits example_three_fields \<le> 10000 * 8"
    by (simp add: example_three_fields_def total_bits_def)
  have h4: "input_bits example_three_fields = [0..15]"
    by code_simp
  from populate_repartitions_bits[OF h1 h2 h3] h1 h2 h3 h4 show ?thesis by simp
qed

section \<open>Rows are full, and the last row is kept\<close>

text \<open>
  C6: for every valid input (and positive \<open>bitsPerRow\<close>), every word that populate
  stores, except possibly the last, has widths \<open>end - start + 1\<close> that sum to
  \<open>bitsPerRow\<close>; and when the input stays within 10000 rows and its length is not a
  multiple of \<open>bitsPerRow\<close>, the partly filled last row is in the store: the last word
  covers the bits from the last row boundary to the last bit. With 10 bits and 8 bits
  per row the second word covers bits 8 and 9.
\<close>

theorem populate_row_width:
  assumes "0 < B" and "valid_input bs"
  shows "(\<forall>w\<in>set (butlast (packet (snd (populate B bs initialDB)))). word_width w = B)
    \<and> (total_bits bs \<le> 10000 * B \<and> total_bits bs mod B \<noteq> 0 \<longrightarrow>
         packet (snd (populate B bs initialDB)) \<noteq> []
         \<and> concat (map sub_block_bits (last (packet (snd (populate B bs initialDB)))))
             = [total_bits bs div B * B..total_bits bs - 1])"
  using populate_rows_full[OF assms] populate_last_row(1)[OF assms] by blast

theorem populate_row_width_witness:
  "(0::int) < 8 \<and> valid_input example_ten_bits \<and> total_bits example_ten_bits = 10
   \<and> packet (snd (populate 8 example_ten_bits initialDB))
       = [[\<lparr>fstart = 0, fend = 7, flabel = ''A''\<rparr>], [\<lparr>fstart = 8, fend = 9, flabel = ''A''\<rparr>]]
   \<and> word_width [\<lparr>fstart = 0, fend = 7, flabel = ''A''\<rparr>] = 8
   \<and> concat (map sub_block_bits (last (packet (snd (populate 8 example_ten_bits initialDB)))))
       = [8..9]"
proof -
  have h1: "(0::int) < 8" by simp
  have h2: "valid_input example_ten_bits"
    by (simp add: example_ten_bits_def valid_input_def)
  have h3: "total_bits example_ten_bits = 10"
    by (simp add: example_ten_bits_def total_bits_def)
  have h4: "packet (snd (populate 8 example_ten_bits initialDB))
      = [[\<lparr>fstart = 0, fend = 7, flabel = ''A''\<rparr>], [\<lparr>fstart = 8, fend = 9, flabel = ''A''\<rparr>]]"
    by (simp add: example_ten_bits_def populate_def initialDB_def fit_loop.simps
        getNextFittingBlock_def getPacket_def pushWord_def range_check_def)
  note t = populate_row_width[OF h1 h2]
  from t h4 have w: "word_width [\<lparr>fstart = 0, fend = 7, flabel = ''A''\<rparr>] = 8" by simp
  from t h3 have "concat (map sub_block_bits (last (packet (snd (populate 8 example_ten_bits initialDB)))))
      = [10 div 8 * 8..10 - 1]" by simp
  then have "concat (map sub_block_bits (last (packet (snd (populate 8 example_ten_bits initialDB)))))
      = [8..9]" by simp
  with h1 h2 h3 h4 w show ?thesis by simp
qed

section \<open>No empty word in the store\<close>

text \<open>
  C10: every word in the packet store is non-empty. pushWord drops a word of length
  zero, so a store without an empty word has none after populate, whatever the input,
  the row width and the outcome. In particular the last, unconditional pushWord adds no
  empty word when the input's length is an exact multiple of \<open>bitsPerRow\<close>: the store
  then holds exactly \<open>total_bits div bitsPerRow\<close> words.
\<close>

theorem populate_words_nonempty:
  assumes "[] \<notin> set (packet s)"
  shows "[] \<notin> set (packet (snd (populate B bs s)))
    \<and> (0 < B \<and> valid_input bs \<and> total_bits bs \<le> 10000 * B \<and> total_bits bs mod B = 0 \<longrightarrow>
         int (length (packet (snd (populate B bs initialDB)))) = total_bits bs div B)"
proof -
  obtain r e a l s' where p: "populate_blocks B bs (- 1) [] 1 s = (r, e, a, l, s')"
    by (cases "populate_blocks B bs (- 1) [] 1 s") auto
  from assms have "\<forall>w\<in>set (packet s). w \<noteq> []" by auto
  from populate_blocks_words_nonempty[OF this p]
  have n: "\<forall>w\<in>set (packet s'). w \<noteq> []" .
  then have "\<forall>w\<in>set (packet (pushWord a s')). w \<noteq> []" by (simp add: pushWord_def)
  with n p have "\<forall>w\<in>set (packet (snd (populate B bs s))). w \<noteq> []"
    by (cases r) (simp_all add: populate_def)
  then have "[] \<notin> set (packet (snd (populate B bs s)))" by auto
  moreover have "int (length (packet (snd (populate B bs initialDB)))) = total_bits bs div B"
    if "0 < B" "valid_input bs" "total_bits bs \<le> 10000 * B" "total_bits bs mod B = 0"
    using populate_last_row(2)[OF that] .
  ultimately show ?thesis by simp
qed

theorem populate_words_nonempty_witness:
  "[] \<notin> set (packet initialDB) \<and> (0::int) < 8 \<and> valid_input example_two_rows
   \<and> total_bits example_two_rows \<le> 10000 * 8 \<and> total_bits example_two_rows mod 8 = 0
   \<and> [] \<notin> set (packet (snd (populate 8 example_two_rows initialDB)))
   \<and> int (length (packet (snd (populate 8 example_two_rows initialDB)))) = 2"
proof -
  have h0: "[] \<notin> set (packet initialDB)" by (simp add: initialDB_def)
  have h1: "(0::int) < 8" by simp
  have h2: "valid_input example_two_rows"
    by (simp add: example_two_rows_def valid_input_def)
  have h3: "total_bits example_two_rows = 16"
    by (simp add: example_two_rows_def total_bits_def)
  from populate_words_nonempty[OF h0, of 8 example_two_rows] h0 h1 h2 h3
  show ?thesis by simp
qed

section \<open>The ceiling of 10000 words\<close>

text \<open>
  C3, as amended: the ceiling of 10000 is on the words (rows) in the store, not on the
  sub-blocks. The inner loop runs only while the store holds fewer than 10000 words, so
  a store of at most 10000 words holds at most 10000 words after populate, whatever the
  input; a store of 10000 words is left as it is, so nothing more is emitted once the
  ceiling is reached; and the ceiling raises no error: a valid input of any size returns
  normally.
\<close>

theorem populate_word_ceiling:
  assumes "length (packet s) \<le> 10000"
  shows "length (packet (snd (populate B bs s))) \<le> 10000
    \<and> (length (packet s) = 10000 \<longrightarrow> snd (populate B bs s) = s)
    \<and> (valid_input bs \<longrightarrow> fst (populate B bs s) = None)"
proof -
  obtain r e a l s' where p: "populate_blocks B bs (- 1) [] 1 s = (r, e, a, l, s')"
    by (cases "populate_blocks B bs (- 1) [] 1 s") auto
  from populate_blocks_ceiling[OF assms _ p]
  have c: "length (packet s') \<le> 10000" "length (packet s') = 10000 \<longrightarrow> a = []" by simp_all
  then have "length (packet (pushWord a s')) \<le> 10000" by (auto simp: pushWord_def)
  with c p have "length (packet (snd (populate B bs s))) \<le> 10000"
    by (cases r) (simp_all add: populate_def)
  moreover have "snd (populate B bs s) = s" if "length (packet s) = 10000"
  proof -
    from populate_blocks_at_ceiling[OF that p] have "s' = s" "a = []" by simp_all
    with p show ?thesis by (cases r) (simp_all add: populate_def pushWord_def)
  qed
  moreover have "fst (populate B bs s) = None" if "valid_input bs"
  proof -
    from populate_blocks_no_error[of "- 1" bs B "[]" 1 s] that p have "r = None"
      by (simp add: valid_input_def)
    with p show ?thesis by (simp add: populate_def)
  qed
  ultimately show ?thesis by simp
qed

theorem populate_word_ceiling_witness:
  "length (packet initialDB) \<le> 10000
   \<and> valid_input [\<lparr>start = 0, end_opt = Some 19999, label = ''A''\<rparr>]
   \<and> length (packet (snd (populate 1 [\<lparr>start = 0, end_opt = Some 19999, label = ''A''\<rparr>] initialDB)))
       \<le> 10000
   \<and> fst (populate 1 [\<lparr>start = 0, end_opt = Some 19999, label = ''A''\<rparr>] initialDB) = None
   \<and> length (packet \<lparr>packet = replicate 10000 [\<lparr>fstart = 0, fend = 0, flabel = ''x''\<rparr>]\<rparr>) = 10000
   \<and> snd (populate 8 example_ten_bits
            \<lparr>packet = replicate 10000 [\<lparr>fstart = 0, fend = 0, flabel = ''x''\<rparr>]\<rparr>)
       = \<lparr>packet = replicate 10000 [\<lparr>fstart = 0, fend = 0, flabel = ''x''\<rparr>]\<rparr>"
proof -
  let ?full = "\<lparr>packet = replicate 10000 [\<lparr>fstart = 0, fend = 0, flabel = ''x''\<rparr>]\<rparr>"
  have h1: "length (packet initialDB) \<le> 10000" by (simp add: initialDB_def)
  have h2: "valid_input [\<lparr>start = 0, end_opt = Some 19999, label = ''A''\<rparr>]"
    by (simp add: valid_input_def)
  have h3: "length (packet ?full) = 10000" by simp
  then have h4: "length (packet ?full) \<le> 10000" by simp
  from populate_word_ceiling[OF h1, of 1 "[\<lparr>start = 0, end_opt = Some 19999, label = ''A''\<rparr>]"]
    populate_word_ceiling[OF h4, of 8 example_ten_bits] h1 h2 h3
  show ?thesis by simp
qed

text \<open>
  The claim as stated fails: 10001 one-bit blocks at 32 bits per row are within the
  ceiling of 10000 rows, and populate stores more than 10000 sub-blocks for them.
\<close>

theorem more_than_10000_sub_blocks:
  "10000 < length (concat (packet (snd (populate 32 (unit_blocks 0 10001) initialDB))))"
proof -
  have v: "valid_input (unit_blocks 0 10001)"
    by (simp add: valid_input_def unit_blocks_contiguous)
  have t: "total_bits (unit_blocks 0 10001) \<le> 10000 * 32"
    by (simp add: total_bits_def unit_blocks_next_start)
  from populate_valid[OF _ v t]
  obtain a s where "populate 32 (unit_blocks 0 10001) initialDB = (None, pushWord a s)"
    and "length (unit_blocks 0 10001) \<le> length (concat (packet s) @ a)"
    by auto
  then show ?thesis
    by (simp add: unit_blocks_length concat_packet_pushWord)
qed

section \<open>Clearing the store between two renders\<close>

text \<open>
  The template object is never written: in every module state that can arise, the
  object \<^verbatim>\<open>n\<close> refers to has an empty packet and is not the object \<^verbatim>\<open>s\<close> refers to.
\<close>

lemma reachable_template:
  "reachable m \<Longrightarrow>
     packet (objects m (n_ref m)) = [] \<and> n_ref m \<noteq> s_ref m
     \<and> n_ref m < fresh m \<and> s_ref m < fresh m"
proof (induction rule: reachable.induct)
  case reachable_init
  show ?case by (simp add: module_init_def)
next
  case (reachable_populate m bpr blocks)
  then show ?case by (simp add: module_populate_def split: prod.splits)
next
  case (reachable_pushWord m t)
  then show ?case by (simp add: module_pushWord_def)
next
  case (reachable_clear m)
  then show ?case by (simp add: clear_def)
qed

lemma module_populate_result:
  "fst (module_populate B bs m) = fst (populate B bs (objects m (s_ref m)))"
  "module_getPacket (snd (module_populate B bs m))
     = packet (snd (populate B bs (objects m (s_ref m))))"
  by (simp_all add: module_populate_def module_getPacket_def getPacket_def split: prod.splits)

lemma clear_gives_empty_store:
  assumes "reachable m"
  shows "objects (clear m) (s_ref (clear m)) = \<lparr>packet = []\<rparr>"
proof -
  from reachable_template[OF assms] have "packet (objects m (n_ref m)) = []" by simp
  then have "objects m (n_ref m) = \<lparr>packet = []\<rparr>" by (cases "objects m (n_ref m)") simp
  then show ?thesis by (simp add: clear_def)
qed

text \<open>
  C9: for every input and every module state that can arise (whatever was rendered
  before), calling clear and then running populate gives the outcome and the Word
  sequence of populate on the freshly loaded module; and calling clear after that run and
  running populate again with the same input and the same \<open>bitsPerRow\<close> gives the same
  outcome and the same Word sequence once more. No state leaks across renders.
\<close>

theorem clear_then_populate_again:
  assumes "reachable m"
  shows "fst (module_populate B bs (clear m)) = fst (module_populate B bs module_init)
    \<and> module_getPacket (snd (module_populate B bs (clear m)))
        = module_getPacket (snd (module_populate B bs module_init))
    \<and> fst (module_populate B bs (clear (snd (module_populate B bs (clear m)))))
        = fst (module_populate B bs (clear m))
    \<and> module_getPacket (snd (module_populate B bs (clear (snd (module_populate B bs (clear m))))))
        = module_getPacket (snd (module_populate B bs (clear m)))"
proof -
  have i: "objects module_init (s_ref module_init) = \<lparr>packet = []\<rparr>"
    by (simp add: module_init_def)
  note c1 = clear_gives_empty_store[OF assms]
  have "reachable (snd (module_populate B bs (clear m)))"
    by (intro reachable_populate reachable_clear assms)
  note c2 = clear_gives_empty_store[OF this]
  show ?thesis by (simp add: module_populate_result i c1 c2)
qed

theorem clear_then_populate_again_witness:
  "reachable (snd (module_populate 8 example_ten_bits module_init))
   \<and> module_getPacket (snd (module_populate 8 example_ten_bits module_init))
       = [[\<lparr>fstart = 0, fend = 7, flabel = ''A''\<rparr>], [\<lparr>fstart = 8, fend = 9, flabel = ''A''\<rparr>]]
   \<and> module_getPacket (snd (module_populate 8 example_ten_bits
          (clear (snd (module_populate 8 example_ten_bits module_init)))))
       = [[\<lparr>fstart = 0, fend = 7, flabel = ''A''\<rparr>], [\<lparr>fstart = 8, fend = 9, flabel = ''A''\<rparr>]]
   \<and> module_getPacket (snd (module_populate 8 example_ten_bits
          (snd (module_populate 8 example_ten_bits module_init))))
       = [[\<lparr>fstart = 0, fend = 7, flabel = ''A''\<rparr>], [\<lparr>fstart = 8, fend = 9, flabel = ''A''\<rparr>],
          [\<lparr>fstart = 0, fend = 7, flabel = ''A''\<rparr>], [\<lparr>fstart = 8, fend = 9, flabel = ''A''\<rparr>]]"
proof -
  let ?first = "snd (module_populate 8 example_ten_bits module_init)"
  let ?w1 = "[\<lparr>fstart = 0, fend = 7, flabel = ''A''\<rparr>]"
  let ?w2 = "[\<lparr>fstart = 8, fend = 9, flabel = ''A''\<rparr>]"
  have h: "reachable ?first" by (intro reachable_populate reachable_init)
  have e1: "populate 8 example_ten_bits \<lparr>packet = []\<rparr> = (None, \<lparr>packet = [?w1, ?w2]\<rparr>)"
    by (simp add: example_ten_bits_def populate_def fit_loop.simps getNextFittingBlock_def
        getPacket_def pushWord_def range_check_def Let_def)
  have e2: "populate 8 example_ten_bits \<lparr>packet = [?w1, ?w2]\<rparr>
      = (None, \<lparr>packet = [?w1, ?w2, ?w1, ?w2]\<rparr>)"
    by (simp add: example_ten_bits_def populate_def fit_loop.simps getNextFittingBlock_def
        getPacket_def pushWord_def range_check_def Let_def)
  have o1: "objects ?first (s_ref ?first) = \<lparr>packet = [?w1, ?w2]\<rparr>"
    by (simp add: module_populate_def module_init_def e1)
  have p1: "module_getPacket ?first = [?w1, ?w2]"
    by (simp add: module_populate_result module_init_def e1)
  have p2: "module_getPacket (snd (module_populate 8 example_ten_bits ?first))
      = [?w1, ?w2, ?w1, ?w2]"
    by (simp add: module_populate_result o1 e2)
  from clear_then_populate_again[OF h, of 8 example_ten_bits] h p1 p2
  show ?thesis by simp
qed

text \<open>
  The last line of the example is the run without clear: the words of the first run
  are still in the store and the second run adds its own after them.
\<close>

section \<open>The contiguity check\<close>

text \<open>
  C4, as amended: when the blocks before it raised nothing and the block's end (the
  start when the end is absent) is not below its start, a block whose start differs from
  the expected start makes populate raise the non-contiguous-block error, which reports
  the block's start, its end (or start) and the expected start; the expected start is the
  previous block's end + 1, from the sentinel -1, so the first block must start at 0.
  Whatever follows the block is not looked at. The input [{0,3,A},{5,7,B}] raises this
  error.
\<close>

theorem noncontiguous_block_raises:
  assumes "fst (populate B pre s) = None" and "start b \<le> end_or_start b"
    and "start b \<noteq> expected_start pre"
  shows "fst (populate B (pre @ b # post) s)
    = Some (NotContiguous (start b) (end_or_start b) (expected_start pre))"
proof -
  obtain r e a l s' where p: "populate_blocks B pre (- 1) [] 1 s = (r, e, a, l, s')"
    by (cases "populate_blocks B pre (- 1) [] 1 s") auto
  with assms(1) have r: "r = None" by (cases r) (simp_all add: populate_def)
  from populate_blocks_last_end[OF p[unfolded r]]
  have e: "e + 1 = expected_start pre" by (simp add: expected_start_def)
  from assms(3) e have "start b \<noteq> e + 1" by simp
  with p r e range_check_valid[OF assms(2)] show ?thesis
    by (simp add: populate_def populate_blocks_append)
qed

theorem noncontiguous_block_raises_witness:
  "fst (populate 32 [\<lparr>start = 0, end_opt = Some 3, label = ''A''\<rparr>] initialDB) = None
   \<and> start \<lparr>start = 5, end_opt = Some 7, label = ''B''\<rparr>
       \<le> end_or_start \<lparr>start = 5, end_opt = Some 7, label = ''B''\<rparr>
   \<and> start \<lparr>start = 5, end_opt = Some 7, label = ''B''\<rparr>
       \<noteq> expected_start [\<lparr>start = 0, end_opt = Some 3, label = ''A''\<rparr>]
   \<and> fst (populate 32 [\<lparr>start = 0, end_opt = Some 3, label = ''A''\<rparr>,
                        \<lparr>start = 5, end_opt = Some 7, label = ''B''\<rparr>] initialDB)
       = Some (NotContiguous 5 7 4)"
proof -
  have h1: "fst (populate 32 [\<lparr>start = 0, end_opt = Some 3, label = ''A''\<rparr>] initialDB) = None"
    by (simp add: populate_def initialDB_def fit_loop.simps getNextFittingBlock_def
        getPacket_def pushWord_def range_check_def)
  have h2: "start \<lparr>start = 5, end_opt = Some 7, label = ''B''\<rparr>
      \<le> end_or_start \<lparr>start = 5, end_opt = Some 7, label = ''B''\<rparr>"
    by simp
  have h3: "start \<lparr>start = 5, end_opt = Some 7, label = ''B''\<rparr>
      \<noteq> expected_start [\<lparr>start = 0, end_opt = Some 3, label = ''A''\<rparr>]"
    by (simp add: expected_start_def)
  from noncontiguous_block_raises[OF h1 h2 h3, of "[]"] h1 h2 h3
  show ?thesis by (simp add: expected_start_def)
qed

text \<open>
  The claim as stated fails: the block {5,2} does not start at the expected 0, and
  populate raises the invalid-block error for it, since the range check comes first and
  its end is below its start.
\<close>

theorem range_check_precedes_contiguity_check:
  "start \<lparr>start = 5, end_opt = Some 2, label = ''bad''\<rparr> \<noteq> expected_start []
   \<and> fst (populate 32 [\<lparr>start = 5, end_opt = Some 2, label = ''bad''\<rparr>] initialDB)
       = Some (InvalidBlock 5 2)"
  by (simp add: expected_start_def populate_def range_check_def)

section \<open>The range check and an end of zero\<close>

text \<open>
  C5: the claim asks for the invalid-block error for every block whose end is below
  its start. The guard \<^verbatim>\<open>c && c < r\<close> does not fire when the end is 0: the block
  {1,0} as the only block raises the non-contiguous error instead, and after the block
  {0,0} it gets as far as the splitter, which raises its own error.
\<close>

theorem zero_end_skips_range_check:
  "populate B [\<lparr>start = 1, end_opt = Some 0, label = ''bad''\<rparr>] s
     = (Some (NotContiguous 1 0 0), s)
   \<and> populate 32 [\<lparr>start = 0, end_opt = Some 0, label = ''A''\<rparr>,
                   \<lparr>start = 1, end_opt = Some 0, label = ''bad''\<rparr>] initialDB
     = (Some (StartGreaterThanEnd 1 0), initialDB)"
  by (simp add: populate_def initialDB_def fit_loop.simps getNextFittingBlock_def
      getPacket_def pushWord_def range_check_def)

section \<open>The configuration resolver\<close>

text \<open>
  C7: getConfig is a function of the defaults and the user's configuration alone and
  has no error case; it merges the user's keys over the defaults and then, when showBits
  is true, adds exactly 10 to paddingY, every other field being the merged value. The
  helper cleanAndMerge of the other chunk is taken to hand back the merged object.
\<close>

theorem getConfig_refines_resolve_spec:
  assumes "cleanAndMerge (spread d u) = spread d u"
  shows "getConfig cleanAndMerge d u = resolve_spec d u"
  using assms by (simp add: getConfig_def resolve_spec_def spread_def)

theorem getConfig_refines_resolve_spec_witness:
  "id (spread example_config
         \<lparr>u_rowHeight = None, u_bitWidth = None, u_bitsPerRow = Some 8, u_showBits = None,
          u_paddingX = None, u_paddingY = Some 7, u_useMaxWidth = None\<rparr>)
     = spread example_config
         \<lparr>u_rowHeight = None, u_bitWidth = None, u_bitsPerRow = Some 8, u_showBits = None,
          u_paddingX = None, u_paddingY = Some 7, u_useMaxWidth = None\<rparr>
   \<and> getConfig id example_config
         \<lparr>u_rowHeight = None, u_bitWidth = None, u_bitsPerRow = Some 8, u_showBits = None,
          u_paddingX = None, u_paddingY = Some 7, u_useMaxWidth = None\<rparr>
     = \<lparr>rowHeight = 32, bitWidth = 32, bitsPerRow = 8, showBits = True,
        paddingX = 5, paddingY = 17, useMaxWidth = True\<rparr>"
proof -
  let ?u = "\<lparr>u_rowHeight = None, u_bitWidth = None, u_bitsPerRow = Some 8, u_showBits = None,
    u_paddingX = None, u_paddingY = Some 7, u_useMaxWidth = None\<rparr>"
  have h: "id (spread example_config ?u) = spread example_config ?u" by simp
  from getConfig_refines_resolve_spec[of id example_config ?u, OF h]
  show ?thesis by (simp add: resolve_spec_def example_config_def)
qed

section \<open>The geometry of a drawn word\<close>

text \<open>
  C8, as amended: for a word at row index \<open>r\<close> and each of its sub-blocks (with
  non-negative start, end at least the start, and positive \<open>bitsPerRow\<close>), drawWord
  draws a rectangle with x = (start mod bitsPerRow) * bitWidth + 1,
  y = r * (rowHeight + paddingY) + paddingY,
  width = (end - start + 1) * bitWidth - paddingX and height = rowHeight; with showBits
  it also writes the start bit index of every sub-block, and the end bit index of
  exactly the sub-blocks of more than one bit; without showBits it writes neither.
\<close>

theorem drawWord_geometry:
  assumes "0 < bitsPerRow cfg" and "list_all (\<lambda>b. 0 \<le> fstart b \<and> fstart b \<le> fend b) w"
  shows "rects (drawWord w r cfg) =
      map (\<lambda>b. (Some ((fstart b mod bitsPerRow cfg) * bitWidth cfg + 1),
                 r * (rowHeight cfg + paddingY cfg) + paddingY cfg,
                 (fend b - fstart b + 1) * bitWidth cfg - paddingX cfg,
                 rowHeight cfg)) w
    \<and> bit_indices ''packetByte start'' (drawWord w r cfg) = (if showBits cfg then map fstart w else [])
    \<and> bit_indices ''packetByte end'' (drawWord w r cfg) =
        (if showBits cfg then map fend (filter (\<lambda>b. 1 < fend b - fstart b + 1) w) else [])"
  using assms(2)
proof (induction w)
  case Nil
  then show ?case by (simp add: drawWord_def)
next
  case (Cons b w)
  from Cons.prems have b: "0 \<le> fstart b" "fstart b \<le> fend b"
    and w: "list_all (\<lambda>b. 0 \<le> fstart b \<and> fstart b \<le> fend b) w" by simp_all
  have x: "js_rem (fstart b) (bitsPerRow cfg) = Some (fstart b mod bitsPerRow cfg)"
    by (rule js_rem_mod[OF b(1) assms(1)])
  have e: "(fend b \<noteq> fstart b) = (1 < fend b - fstart b + 1)" using b(2) by auto
  from Cons.IH[OF w] show ?case
    by (simp add: drawWord_def Let_def rects_append bit_indices_append rects_drawBlock
        start_indices_drawBlock end_indices_drawBlock x e)
qed

theorem drawWord_geometry_witness:
  "0 < bitsPerRow example_config
   \<and> list_all (\<lambda>b. 0 \<le> fstart b \<and> fstart b \<le> fend b)
        [\<lparr>fstart = 0, fend = 0, flabel = ''A''\<rparr>, \<lparr>fstart = 1, fend = 10, flabel = ''B''\<rparr>]
   \<and> rects (drawWord [\<lparr>fstart = 0, fend = 0, flabel = ''A''\<rparr>,
                       \<lparr>fstart = 1, fend = 10, flabel = ''B''\<rparr>] 1 example_config)
       = [(Some 1, 42, 27, 32), (Some 33, 42, 315, 32)]
   \<and> bit_indices ''packetByte start''
        (drawWord [\<lparr>fstart = 0, fend = 0, flabel = ''A''\<rparr>,
                   \<lparr>fstart = 1, fend = 10, flabel = ''B''\<rparr>] 1 example_config) = [0, 1]
   \<and> bit_indices ''packetByte end''
        (drawWord [\<lparr>fstart = 0, fend = 0, flabel = ''A''\<rparr>,
                   \<lparr>fstart = 1, fend = 10, flabel = ''B''\<rparr>] 1 example_config) = [10]"
proof -
  let ?w = "[\<lparr>fstart = 0, fend = 0, flabel = ''A''\<rparr>, \<lparr>fstart = 1, fend = 10, flabel = ''B''\<rparr>]"
  have h1: "0 < bitsPerRow example_config" by (simp add: example_config_def)
  have h2: "list_all (\<lambda>b. 0 \<le> fstart b \<and> fstart b \<le> fend b) ?w" by simp
  from drawWord_geometry[OF h1 h2, of 1] h1 h2
  show ?thesis by (simp add: example_config_def)
qed

text \<open>
  The claim as stated fails: the x of a rectangle is one more than
  (start mod bitsPerRow) * bitWidth. A block at bit 0 is drawn at x = 1.
\<close>

theorem block_x_is_offset_by_one:
  "rects (drawWord [\<lparr>fstart = 0, fend = 7, flabel = ''A''\<rparr>] 0
      \<lparr>rowHeight = 32, bitWidth = 32, bitsPerRow = 32, showBits = False,
       paddingX = 5, paddingY = 5, useMaxWidth = True\<rparr>)
    = [(Some 1, 5, 251, 32)]
   \<and> ((0::int) mod 32) * 32 \<noteq> 1"
  by (simp add: drawWord_def rects_drawBlock js_rem_def)

end
